theory Spec2Isabelle
  imports Main "HOL-Library.Word" "HOL-Library.List_Lexorder" "HOL-Library.Sublist"
begin

section \<open>Data model of pts\_lbsearch (lbsearch-doesnotwork.c)\<close>

text \<open>
  The mapped file is a list of bytes. \<open>off_t\<close> values are modelled as \<open>int\<close>
  (files are far smaller than \<open>2 ^ 62\<close> bytes, so \<open>lo + hi\<close> never wraps); the one
  unsigned comparison of the source is written out modulo \<open>2 ^ 64\<close>.
  A read outside the mapped bytes is undefined behaviour in C; the model makes it the
  error value \<open>OutOfBounds\<close>. The build line in the head of the source defines
  \<open>NDEBUG\<close>, so the two \<open>assert\<close> calls do nothing and are left out.
\<close>

text \<open>
  The prototype \<open>bisect.c\<close> (one hard-wired search) is not modelled. Where it differs
  from the tool it is quoted in the text: its \<open>get_fofs\<close> tests \<open>size == ofs\<close> in the
  loop, its \<open>compare_line\<close> advances the offset with every byte it reads
  (\<open>fofs++\<close>), and its \<open>bisect_way\<close> returns \<open>get_fofs(file, size, lo)\<close> when
  \<open>lo >= hi\<close>.
\<close>

type_synonym byte = "8 word"

datatype error = OutOfBounds

record yfile =
  yf_mmap :: "byte list"
  yf_size :: int
  yf_ofs :: int

datatype compare_mode_t = CM_LE | CM_LT | CM_LP | CM_UNSET

text \<open>\<open>*(yf->mmap + i)\<close>: the byte at index \<open>i\<close> of the mapping.\<close>

definition peek :: "yfile \<Rightarrow> int \<Rightarrow> error + byte" where
  "peek yf i =
     (if 0 \<le> i \<and> i < int (length (yf_mmap yf)) then Inr (yf_mmap yf ! nat i) else Inl OutOfBounds)"

definition yfgetsize :: "yfile \<Rightarrow> int" where
  "yfgetsize yf = yf_size yf"

text \<open>What \<open>yfopen\<close> establishes: the size field is the number of mapped bytes.\<close>

definition yf_ok :: "yfile \<Rightarrow> bool" where
  "yf_ok yf = (yf_size yf = int (length (yf_mmap yf)))"

section \<open>get\_fofs\<close>

text \<open>
  The \<open>do ... while (c != '\n')\<close> loop of \<open>get_fofs\<close>: reads the byte at \<open>ofs\<close>,
  advances, and stops after a line feed. The source has no test against the size.
\<close>

function get_fofs_loop :: "yfile \<Rightarrow> int \<Rightarrow> error + int" where
  "get_fofs_loop yf ofs =
     (if 0 \<le> ofs \<and> ofs < int (length (yf_mmap yf))
      then (if yf_mmap yf ! nat ofs \<noteq> 0x0A then get_fofs_loop yf (ofs + 1) else Inr (ofs + 1))
      else Inl OutOfBounds)"
  by pat_completeness auto
termination
  by (relation "measure (\<lambda>(yf, ofs). nat (int (length (yf_mmap yf)) - ofs))") auto

declare get_fofs_loop.simps [simp del]

definition get_fofs :: "yfile \<Rightarrow> int \<Rightarrow> error + (int \<times> yfile)" where
  "get_fofs yf ofs =
     (if ofs = 0 then Inr (0, yf)
      else if ofs > yf_size yf then Inr (yf_size yf, yf)
      else (case get_fofs_loop yf (ofs - 1) of
              Inl e \<Rightarrow> Inl e
            | Inr r \<Rightarrow> Inr (r, yf\<lparr>yf_ofs := ofs - 1\<rparr>)))"

section \<open>compare\_line\<close>

text \<open>
  The \<open>for (;;)\<close> loop of \<open>compare_line\<close>. Each round reads the byte at the cursor
  \<open>yf->ofs\<close> into the \<open>int c\<close> through a signed \<open>char\<close>, and the key byte \<open>b\<close> through an
  \<open>unsigned char\<close>. The loop advances the key (\<open>++x; --xsize\<close>) and leaves the cursor
  where it is.
\<close>

fun compare_line_loop :: "yfile \<Rightarrow> byte list \<Rightarrow> compare_mode_t \<Rightarrow> error + bool" where
  "compare_line_loop yf x cm =
     (case peek yf (yf_ofs yf) of
        Inl e \<Rightarrow> Inl e
      | Inr ch \<Rightarrow>
          (let c = sint ch in
           if c < 0 \<or> c = 0x0A then Inr (if cm = CM_LE then x = [] else False)
           else (case x of
                   [] \<Rightarrow> Inr (cm \<noteq> CM_LP)
                 | xb # x' \<Rightarrow>
                     (let b = uint xb in
                      if b \<noteq> c then Inr (b < c) else compare_line_loop yf x' cm))))"

declare compare_line_loop.simps [simp del]

definition compare_line ::
  "yfile \<Rightarrow> int \<Rightarrow> byte list \<Rightarrow> compare_mode_t \<Rightarrow> error + (bool \<times> yfile)" where
  "compare_line yf fofs x cm =
     (let yf' = yf\<lparr>yf_ofs := fofs\<rparr> in
      if yf_ofs yf' = yf_size yf' then Inr (True, yf')
      else (case compare_line_loop yf' x cm of
              Inl e \<Rightarrow> Inl e
            | Inr r \<Rightarrow> Inr (r, yf')))"

section \<open>bisect\_way and bisect\_interval\<close>

text \<open>The \<open>return\<close> after the loop: the cached line start, or one more \<open>get_fofs\<close>.\<close>

definition bisect_finish :: "yfile \<Rightarrow> int \<Rightarrow> int \<Rightarrow> int \<Rightarrow> error + (int \<times> yfile)" where
  "bisect_finish yf mid midf lo = (if mid = lo then Inr (midf, yf) else get_fofs yf lo)"

text \<open>The \<open>do ... while (lo < hi)\<close> loop of \<open>bisect_way\<close>.\<close>

function bisect_loop ::
  "yfile \<Rightarrow> int \<Rightarrow> int \<Rightarrow> byte list \<Rightarrow> compare_mode_t \<Rightarrow> error + (int \<times> yfile)" where
  "bisect_loop yf lo hi x cm =
     (let mid = (lo + hi) div 2 in
      case get_fofs yf mid of
        Inl e \<Rightarrow> Inl e
      | Inr (midf, yf1) \<Rightarrow>
          (case compare_line yf1 midf x cm of
             Inl e \<Rightarrow> Inl e
           | Inr (r, yf2) \<Rightarrow>
               (if r then (if lo < mid then bisect_loop yf2 lo mid x cm
                           else bisect_finish yf2 mid midf lo)
                else (if mid + 1 < hi then bisect_loop yf2 (mid + 1) hi x cm
                      else bisect_finish yf2 mid midf (mid + 1)))))"
  by pat_completeness auto
termination
  by (relation "measure (\<lambda>(yf, lo, hi, x, cm). nat (hi - lo))") auto

declare bisect_loop.simps [simp del]

definition uint64 :: "int \<Rightarrow> int" where
  "uint64 v = v mod 2 ^ 64"

definition bisect_way ::
  "yfile \<Rightarrow> int \<Rightarrow> int \<Rightarrow> byte list \<Rightarrow> compare_mode_t \<Rightarrow> error + (int \<times> yfile)" where
  "bisect_way yf lo hi x cm =
     (let sz = yfgetsize yf;
          hi1 = (if uint64 hi > uint64 sz then sz else hi);
          hi2 = (if x = [] \<and> cm = CM_LE then lo else hi1)
      in if x = [] \<and> cm = CM_LP \<and> hi2 = sz then Inr (hi2, yf)
         else if lo \<ge> hi2 then Inr (yf_ofs yf, yf)
         else bisect_loop yf lo hi2 x cm)"

definition bisect_interval ::
  "yfile \<Rightarrow> int \<Rightarrow> int \<Rightarrow> compare_mode_t \<Rightarrow> byte list \<Rightarrow> byte list
     \<Rightarrow> error + ((int \<times> int) \<times> yfile)" where
  "bisect_interval yf lo hi cm x y =
     (case bisect_way yf lo hi x CM_LE of
        Inl e \<Rightarrow> Inl e
      | Inr (start, yf1) \<Rightarrow>
          if cm = CM_LE \<and> length x = length y \<and> x = y then Inr ((start, start), yf1)
          else (case bisect_way yf1 start hi y cm of
                  Inl e \<Rightarrow> Inl e
                | Inr (end, yf2) \<Rightarrow> Inr ((start, end), yf2)))"

section \<open>The command line tool: main\<close>

text \<open>
  The process either exits with a code, having written \<open>out\<close> to standard output and
  \<open>err\<close> to standard error, or faults on an access outside the mapped bytes.
\<close>

datatype outcome = Exited int "byte list" string | Fault error

fun exit_status :: "outcome \<Rightarrow> int option" where
  "exit_status (Exited code out err) = Some code"
| "exit_status (Fault e) = None"

text \<open>
  What the operating system answers: \<open>fs\<close> is the result of \<open>open\<close>, \<open>lseek\<close> and
  \<open>mmap\<close> on a path, \<open>sys_write\<close> the return value of \<open>write\<close> on standard output
  (\<open>-1\<close> for an error), \<open>errmsg\<close> the text of \<open>strerror(errno)\<close>, and \<open>uninit_ofs\<close>
  the indeterminate content of the field \<open>yff.ofs\<close>, which \<open>yfopen\<close> does not set.
  \<open>mmap\<close> has three outcomes: the mapped bytes, the null pointer (\<open>MapNull\<close>, the one
  value the test \<open>if (!m)\<close> of the source catches), and \<open>MAP_FAILED\<close>, which is how
  \<open>mmap\<close> reports a failure; \<open>MapFailed n\<close> carries the size that \<open>lseek\<close> returned.
\<close>

datatype file_t =
  OpenFails | Unseekable | SeekFails | MapNull | MapFailed nat | Mapped "byte list"

record env =
  fs :: "string \<Rightarrow> file_t"
  sys_write :: "byte list \<Rightarrow> int"
  errmsg :: string
  uninit_ofs :: int

definition die5_code :: "string \<Rightarrow> string \<Rightarrow> string \<Rightarrow> string \<Rightarrow> string \<Rightarrow> int \<Rightarrow> outcome" where
  "die5_code msg1 msg2 msg3 msg4 msg5 exit_code = Exited exit_code [] (msg1 @ msg2 @ msg3 @ msg4 @ msg5)"

definition die2_strerror :: "env \<Rightarrow> string \<Rightarrow> string \<Rightarrow> outcome" where
  "die2_strerror ev msg1 msg2 = die5_code msg1 msg2 '': '' (errmsg ev) ''\<newline>'' 2"

definition die1 :: "string \<Rightarrow> outcome" where
  "die1 msg1 = die5_code msg1 [] [] [] ''\<newline>'' 2"

definition usage_head :: string where
  "usage_head = ''Binary search (bisection) in a sorted text file\<newline>Usage: ''"

definition usage_flags :: string where
  "usage_flags =
     ''-<flags> <sorted-text-file> <key-x> [<key-y>]\<newline>'' @
     ''<key-x> is the first key to search for\<newline>'' @
     ''<key-y> is the last key to search for; default is <key-x>\<newline>'' @
     ''Flags:\<newline>'' @
     ''e: do bisect_left, open interval end\<newline>'' @
     ''t: do bisect_right, closed interval end\<newline>'' @
     ''b: do bisect_left for interval start (default)\<newline>'' @
     ''a: do bisect_right for interval start (for append position)\<newline>'' @
     ''p: do prefix search\<newline>'' @
     ''c: print file contents (default)\<newline>'' @
     ''o: print file offsets\<newline>'' @
     ''q: don't print anything, just detect if there is a match\<newline>'' @
     ''i: ignore incomplete last line (may be appended to right now)\<newline>'' @
     ''usage error: ''"

definition usage_error :: "string \<Rightarrow> string \<Rightarrow> outcome" where
  "usage_error argv0 msg = die5_code usage_head argv0 usage_flags msg ''\<newline>'' 1"

text \<open>
  \<open>yfopen\<close> with \<open>size = -1\<close>: the mapped file, or the exit of the \<open>die\<close> call.
  \<open>MAP_FAILED\<close> is not the null pointer, so after a failed \<open>mmap\<close> the source goes on
  with the size of the file and a pointer at which no byte can be read.
\<close>

definition yfopen :: "env \<Rightarrow> string \<Rightarrow> outcome + yfile" where
  "yfopen ev pathname =
     (case fs ev pathname of
        OpenFails \<Rightarrow> Inl (die2_strerror ev ''error: open '' pathname)
      | Unseekable \<Rightarrow> Inl (die1 ''error: input not seekable, cannot binary search'')
      | SeekFails \<Rightarrow> Inl (die2_strerror ev ''error: lseek end'' [])
      | MapNull \<Rightarrow> Inl (die2_strerror ev ''error: mmap '' pathname)
      | MapFailed n \<Rightarrow> Inr \<lparr>yf_mmap = [], yf_size = int n, yf_ofs = uninit_ofs ev\<rparr>
      | Mapped m \<Rightarrow> Inr \<lparr>yf_mmap = m, yf_size = int (length m), yf_ofs = uninit_ofs ev\<rparr>)"

text \<open>
  \<open>write_all_to_stdout\<close>, followed by \<open>k\<close>, the rest of \<open>main\<close>, which gets the bytes
  written.
\<close>

definition write_all_to_stdout :: "env \<Rightarrow> byte list \<Rightarrow> (byte list \<Rightarrow> outcome) \<Rightarrow> outcome" where
  "write_all_to_stdout ev buf k =
     (let got = sys_write ev buf in
      if got = int (length buf) then k buf
      else if got = -1 then die2_strerror ev ''error: write stdout'' []
      else die1 ''error: short write'')"

text \<open>
  \<open>print_range\<close> hands \<open>write\<close> the pointer \<open>yf->mmap + start\<close> and the count
  \<open>(size_t)(end - start)\<close>. A count of 0 reads no byte. A range inside the mapping
  is the write of its bytes. Of a range that reaches outside the mapping \<open>write\<close>
  cannot copy every byte: it returns the count of the readable bytes in front, or
  \<open>-1\<close> (\<open>EFAULT\<close>) when already the first byte is outside, and
  \<open>write_all_to_stdout\<close> dies either way.
\<close>

definition print_range :: "env \<Rightarrow> yfile \<Rightarrow> int \<Rightarrow> int \<Rightarrow> (byte list \<Rightarrow> outcome) \<Rightarrow> outcome" where
  "print_range ev yf start end k =
     (let n = uint64 (end - start) in
      if n = 0 then write_all_to_stdout ev [] k
      else if 0 \<le> start \<and> start + n \<le> int (length (yf_mmap yf))
        then write_all_to_stdout ev (take (nat n) (drop (nat start) (yf_mmap yf))) k
      else if 0 \<le> start \<and> start < int (length (yf_mmap yf))
        then die1 ''error: short write''
      else die2_strerror ev ''error: write stdout'' [])"

text \<open>
  \<open>format_unsigned\<close> (the portable variant): the decimal digits, least significant
  first, then reversed. \<open>%\<close> and \<open>/\<close> of C truncate towards zero, so for a negative
  offset the loop still ends, with bytes below the digit 0.
\<close>

function format_digits :: "int \<Rightarrow> byte list" where
  "format_digits i =
     of_int (48 + sgn i * (\<bar>i\<bar> mod 10)) #
       (if sgn i * (\<bar>i\<bar> div 10) \<noteq> 0 then format_digits (sgn i * (\<bar>i\<bar> div 10)) else [])"
  by pat_completeness auto
termination
  by (relation "measure (\<lambda>i. nat \<bar>i\<bar>)") (auto simp: abs_mult abs_sgn_eq)

declare format_digits.simps [simp del]

definition format_unsigned :: "int \<Rightarrow> byte list" where
  "format_unsigned i = rev (format_digits i)"

datatype printing_t = PR_OFFSETS | PR_CONTENTS | PR_DETECT | PR_UNSET

datatype incomplete_t = IN_IGNORE | IN_USE | IN_UNSET

record flags_t =
  cm :: compare_mode_t
  cmstart :: compare_mode_t
  printing :: printing_t
  incomplete :: incomplete_t

text \<open>The loop over the flag characters; \<open>Inl msg\<close> is the call \<open>usage_error(argv[0], msg)\<close>.\<close>

fun parse_flags :: "string \<Rightarrow> flags_t \<Rightarrow> string + flags_t" where
  "parse_flags [] st = Inr st"
| "parse_flags (flag # p) st =
     (if flag = CHR 0x00 then Inr st
      else if flag = CHR ''e'' then
        (if cm st \<noteq> CM_UNSET then Inl ''multiple boundary flags''
         else parse_flags p (st\<lparr>cm := CM_LE\<rparr>))
      else if flag = CHR ''t'' then
        (if cm st \<noteq> CM_UNSET then Inl ''multiple boundary flags''
         else parse_flags p (st\<lparr>cm := CM_LT\<rparr>))
      else if flag = CHR ''p'' then
        (if cm st \<noteq> CM_UNSET then Inl ''multiple boundary flags''
         else parse_flags p (st\<lparr>cm := CM_LP\<rparr>))
      else if flag = CHR ''b'' then
        (if cmstart st \<noteq> CM_UNSET then Inl ''multiple start flags''
         else parse_flags p (st\<lparr>cmstart := CM_LE\<rparr>))
      else if flag = CHR ''a'' then
        (if cmstart st \<noteq> CM_UNSET then Inl ''multiple start flags''
         else parse_flags p (st\<lparr>cmstart := CM_LT\<rparr>))
      else if flag = CHR ''o'' then
        (if printing st \<noteq> PR_UNSET then Inl ''multiple printing flags''
         else parse_flags p (st\<lparr>printing := PR_OFFSETS\<rparr>))
      else if flag = CHR ''c'' then
        (if printing st \<noteq> PR_UNSET then Inl ''multiple printing flags''
         else parse_flags p (st\<lparr>printing := PR_CONTENTS\<rparr>))
      else if flag = CHR ''q'' then
        (if printing st \<noteq> PR_UNSET then Inl ''multiple printing flags''
         else parse_flags p (st\<lparr>printing := PR_DETECT\<rparr>))
      else if flag = CHR ''i'' then
        (if incomplete st \<noteq> IN_UNSET then Inl ''multiple incomplete flags''
         else parse_flags p (st\<lparr>incomplete := IN_IGNORE\<rparr>))
      else Inl ''unsupported flag'')"

text \<open>A key argument up to its first line feed (or NUL), as bytes.\<close>

definition key_of :: "string \<Rightarrow> byte list" where
  "key_of s = map of_char (takeWhile (\<lambda>c. c \<noteq> CHR 0x00 \<and> c \<noteq> CHR 0x0A) s)"

text \<open>
  The parsed command line: the flags after the defaults are filled in, the file name,
  key x and the optional key y (\<open>None\<close> is the \<open>NULL\<close> pointer).
\<close>

record config =
  cfg_flags :: flags_t
  cfg_filename :: string
  cfg_x :: "byte list"
  cfg_y :: "byte list option"

definition parse_args :: "string list \<Rightarrow> string + config" where
  "parse_args args =
     (if length args \<noteq> 3 \<and> length args \<noteq> 4 then Inl ''incorrect argument count''
      else if (case args ! 0 of [] \<Rightarrow> True | c # _ \<Rightarrow> c \<noteq> CHR ''-'') then Inl ''missing flags''
      else
        (let x = key_of (args ! 2);
             y = (if length args = 3 then None else Some (key_of (args ! 3)))
         in case parse_flags (tl (args ! 0))
                  \<lparr>cm = CM_UNSET, cmstart = CM_UNSET, printing = PR_UNSET, incomplete = IN_UNSET\<rparr> of
              Inl msg \<Rightarrow> Inl msg
            | Inr st0 \<Rightarrow>
                (let st1 = (if printing st0 = PR_UNSET then st0\<lparr>printing := PR_CONTENTS\<rparr> else st0);
                     st2 = (if incomplete st1 = IN_UNSET then st1\<lparr>incomplete := IN_USE\<rparr> else st1);
                     st = (if cmstart st2 = CM_UNSET then st2\<lparr>cmstart := CM_LE\<rparr> else st2)
                 in if cm st = CM_UNSET then Inl ''missing boundary flag''
                    else if cmstart st = CM_LT \<and>
                            \<not> (y = None \<and> cm st = CM_LE \<and> printing st = PR_OFFSETS)
                      then Inl ''flag -a needs -eo and no <key-y>''
                    else if y = None \<and> printing st \<noteq> PR_OFFSETS \<and> cm st = CM_LE
                      then Inl ''single-key contents is always empty''
                    else Inr \<lparr>cfg_flags = st, cfg_filename = args ! 1, cfg_x = x, cfg_y = y\<rparr>)))"

text \<open>The three branches of \<open>main\<close> after \<open>yfopen\<close>.\<close>

definition single_offset :: "env \<Rightarrow> yfile \<Rightarrow> byte list \<Rightarrow> compare_mode_t \<Rightarrow> outcome" where
  "single_offset ev yf x cms =
     (case bisect_way yf 0 (-1) x cms of
        Inl e \<Rightarrow> Fault e
      | Inr (start, yf1) \<Rightarrow>
          write_all_to_stdout ev (format_unsigned start @ [0x0A]) (\<lambda>out. Exited 0 out []))"

definition detect_shortcut :: "yfile \<Rightarrow> byte list \<Rightarrow> compare_mode_t \<Rightarrow> outcome" where
  "detect_shortcut yf x c =
     (if c = CM_LE then Exited 3 [] []
      else (case bisect_way yf 0 (-1) x CM_LE of
              Inl e \<Rightarrow> Fault e
            | Inr (start, yf1) \<Rightarrow>
                (case get_fofs yf1 start of
                   Inl e \<Rightarrow> Fault e
                 | Inr (fofs, yf2) \<Rightarrow>
                     (case compare_line yf2 fofs x c of
                        Inl e \<Rightarrow> Fault e
                      | Inr (cmp_result, yf3) \<Rightarrow>
                          if cmp_result then Exited 3 [] [] else Exited 0 [] []))))"

definition interval_exit :: "int \<Rightarrow> int \<Rightarrow> byte list \<Rightarrow> outcome" where
  "interval_exit start end out = (if start \<ge> end then Exited 3 out [] else Exited 0 out [])"

definition general_search ::
  "env \<Rightarrow> yfile \<Rightarrow> compare_mode_t \<Rightarrow> printing_t \<Rightarrow> byte list \<Rightarrow> byte list \<Rightarrow> outcome" where
  "general_search ev yf c pr x y =
     (case bisect_interval yf 0 (-1) c x y of
        Inl e \<Rightarrow> Fault e
      | Inr ((start, end), yf1) \<Rightarrow>
          if pr = PR_CONTENTS then print_range ev yf1 start end (interval_exit start end)
          else if pr = PR_OFFSETS then
            write_all_to_stdout ev (format_unsigned start @ [0x20] @ format_unsigned end @ [0x0A])
              (interval_exit start end)
          else interval_exit start end [])"

definition run :: "env \<Rightarrow> config \<Rightarrow> outcome" where
  "run ev cfg =
     (let st = cfg_flags cfg; x = cfg_x cfg; y = cfg_y cfg in
      case yfopen ev (cfg_filename cfg) of
        Inl died \<Rightarrow> died
      | Inr yf \<Rightarrow>
          if y = None \<and> cm st = CM_LE \<and> printing st = PR_OFFSETS
            then single_offset ev yf x (cmstart st)
          else if printing st = PR_DETECT \<and> (y = None \<or> y = Some x)
            then detect_shortcut yf x (cm st)
          else general_search ev yf (cm st) (printing st) x (case y of None \<Rightarrow> x | Some y' \<Rightarrow> y'))"

text \<open>\<open>main\<close>: \<open>argv0\<close> is \<open>argv[0]\<close>, \<open>args\<close> are \<open>argv[1]\<close> to \<open>argv[argc - 1]\<close>.\<close>

definition main :: "env \<Rightarrow> string \<Rightarrow> string list \<Rightarrow> outcome" where
  "main ev argv0 args =
     (case parse_args args of
        Inl msg \<Rightarrow> usage_error argv0 msg
      | Inr cfg \<Rightarrow> run ev cfg)"

section \<open>Auxiliary definitions for the properties\<close>

text \<open>
  The lines of a region, for stating the properties. A line start is offset 0 or an
  offset just after a line feed; \<open>line_starts\<close> lists the starts of the lines of the
  region, \<open>line_at\<close> is the content of the line at an offset (without its line feed),
  and a region is sorted when its lines ascend in the lexicographic order of unsigned
  bytes.
\<close>

definition line_start :: "byte list \<Rightarrow> nat \<Rightarrow> bool" where
  "line_start m s = (s = 0 \<or> (s \<le> length m \<and> m ! (s - 1) = 0x0A))"

definition line_starts :: "byte list \<Rightarrow> nat list" where
  "line_starts m = filter (line_start m) [0..<length m]"

definition line_at :: "byte list \<Rightarrow> nat \<Rightarrow> byte list" where
  "line_at m p = takeWhile (\<lambda>b. b \<noteq> 0x0A) (drop p m)"

definition region_sorted :: "byte list \<Rightarrow> bool" where
  "region_sorted m = sorted (map (line_at m) (line_starts m))"

text \<open>No byte of the region is negative as a signed \<open>char\<close>.\<close>

definition seven_bit :: "byte list \<Rightarrow> bool" where
  "seven_bit m = list_all (\<lambda>b. 0 \<le> sint b) m"

text \<open>
  The offset just after the first line feed at or after index \<open>i\<close>, and the line start
  at or after an offset: what \<open>get_fofs\<close> computes when every line is terminated.
\<close>

definition line_end :: "byte list \<Rightarrow> nat \<Rightarrow> nat" where
  "line_end m i = i + length (takeWhile (\<lambda>b. b \<noteq> 0x0A) (drop i m)) + 1"

definition resolve :: "byte list \<Rightarrow> nat \<Rightarrow> nat" where
  "resolve m p = (if p = 0 then 0 else line_end m (p - 1))"

text \<open>
  The answer of the loop of \<open>compare_line\<close> as a function of the one byte it reads, and
  the answer of \<open>compare_line\<close> at an offset of the region.
\<close>

fun cmp_byte :: "byte \<Rightarrow> byte list \<Rightarrow> compare_mode_t \<Rightarrow> bool" where
  "cmp_byte ch [] c = (if sint ch < 0 \<or> sint ch = 0x0A then c = CM_LE else c \<noteq> CM_LP)"
| "cmp_byte ch (xb # x) c =
     (if sint ch < 0 \<or> sint ch = 0x0A then False
      else if uint xb \<noteq> sint ch then uint xb < sint ch
      else cmp_byte ch x c)"

definition cmp_at :: "byte list \<Rightarrow> nat \<Rightarrow> byte list \<Rightarrow> compare_mode_t \<Rightarrow> bool" where
  "cmp_at m p x c = (if p = length m then True else cmp_byte (m ! p) x c)"

text \<open>One probe of the bisection: the comparator on the line resolved from offset \<open>j\<close>.\<close>

definition probe :: "byte list \<Rightarrow> byte list \<Rightarrow> compare_mode_t \<Rightarrow> nat \<Rightarrow> bool" where
  "probe m x c j = cmp_at m (resolve m j) x c"

text \<open>
  The matching lines in the words of the specification: \<open>x \<le> L\<close>, and \<open>L < y\<close> for mode
  LT, \<open>L \<le> y\<close> for mode LE, \<open>L\<close> has prefix \<open>y\<close> for mode LP.
\<close>

definition claimed_match :: "compare_mode_t \<Rightarrow> byte list \<Rightarrow> byte list \<Rightarrow> byte list \<Rightarrow> bool" where
  "claimed_match md x y l =
     (x \<le> l \<and>
      (case md of CM_LT \<Rightarrow> l < y | CM_LE \<Rightarrow> l \<le> y | CM_LP \<Rightarrow> prefix y l | CM_UNSET \<Rightarrow> False))"

section \<open>Properties of compare\_line\<close>

text \<open>
  C4 as stated fails: probing at end of file under mode LT, \<open>compare_line\<close> on the empty
  file with key \<open>a\<close> answers true, where the specification says false.
\<close>

theorem compare_line_eof_lt_counterexample:
  "compare_line \<lparr>yf_mmap = [], yf_size = 0, yf_ofs = 0\<rparr> 0 [0x61] CM_LT =
     Inr (True, \<lparr>yf_mmap = [], yf_size = 0, yf_ofs = 0\<rparr>)"
  by (simp add: compare_line_def)

text \<open>
  C4, amended. When the line start passed to \<open>compare_line\<close> equals the size (end of
  file) the comparator returns true for every mode, LT included, and leaves the cursor
  at the size.
\<close>

theorem compare_line_eof:
  "fofs = yf_size yf \<Longrightarrow> compare_line yf fofs x c = Inr (True, yf\<lparr>yf_ofs := fofs\<rparr>)"
  by (simp add: compare_line_def)

theorem compare_line_eof_witness:
  "(2::int) = yf_size \<lparr>yf_mmap = [0x61, 0x0A], yf_size = 2, yf_ofs = 0\<rparr> \<and>
   compare_line \<lparr>yf_mmap = [0x61, 0x0A], yf_size = 2, yf_ofs = 0\<rparr> 2 [0x62] CM_LT =
     Inr (True, \<lparr>yf_mmap = [0x61, 0x0A], yf_size = 2, yf_ofs = 2\<rparr>)"
  using compare_line_eof [of 2 "\<lparr>yf_mmap = [0x61, 0x0A], yf_size = 2, yf_ofs = 0\<rparr>" "[0x62]" CM_LT]
  by simp

text \<open>
  C8. The specification says that the comparison takes the end-of-line branch at every byte
  of a line that is negative as a signed \<open>char\<close>. The loop of \<open>compare_line\<close> never
  advances \<open>yf->ofs\<close>, so it reads the first byte of the line only. On the line \<open>a\<close>,
  \<open>0xC8\<close> with the key \<open>a\<close>, \<open>0x10\<close> under mode LT, the first key byte equals \<open>a\<close>, the
  second key byte is compared with \<open>a\<close> again, and the answer is true with the cursor
  still at 0; the byte \<open>0xC8\<close> is not read. The end-of-line branch at that byte, which
  the comparison started at offset 1 with the rest of the key takes, answers false.
\<close>

theorem compare_line_high_byte_unread:
  "compare_line \<lparr>yf_mmap = [0x61, 0xC8, 0x0A], yf_size = 3, yf_ofs = 0\<rparr> 0 [0x61, 0x10] CM_LT =
     Inr (True, \<lparr>yf_mmap = [0x61, 0xC8, 0x0A], yf_size = 3, yf_ofs = 0\<rparr>) \<and>
   compare_line \<lparr>yf_mmap = [0x61, 0xC8, 0x0A], yf_size = 3, yf_ofs = 0\<rparr> 1 [0x10] CM_LT =
     Inr (False, \<lparr>yf_mmap = [0x61, 0xC8, 0x0A], yf_size = 3, yf_ofs = 1\<rparr>)"
  by code_simp

section \<open>Properties of get\_fofs and bisect\_way\<close>

text \<open>
  C2. The specification says \<open>get_fofs\<close> returns the size when no terminator follows. On the
  two-byte file \<open>ab\<close> (an incomplete last line) and offset 1 the loop of \<open>get_fofs\<close>
  reads the bytes at 0 and 1 and then the byte at index 2, outside the region.
\<close>

theorem get_fofs_incomplete_last_line:
  "get_fofs \<lparr>yf_mmap = [0x61, 0x62], yf_size = 2, yf_ofs = 0\<rparr> 1 = Inl OutOfBounds"
  by code_simp

text \<open>
  C3. The specification says no core function reads outside the region. On the file \<open>ab\<close> the
  first probe of \<open>bisect_way\<close> over the whole file (\<open>lo = 0\<close>, \<open>hi = -1\<close>, key \<open>a\<close>,
  mode LE) resolves \<open>mid = 1\<close> through \<open>get_fofs\<close>, which reads index 2.
\<close>

theorem bisect_way_reads_out_of_bounds:
  "bisect_way \<lparr>yf_mmap = [0x61, 0x62], yf_size = 2, yf_ofs = 0\<rparr> 0 (-1) [0x61] CM_LE =
     Inl OutOfBounds"
  by code_simp

text \<open>
  C5. The specification says that \<open>bisect_way\<close> with \<open>lo \<ge> hi\<close> returns \<open>get_fofs(lo)\<close>. On the
  file \<open>ab\<close>, line feed, with the cursor at 0, \<open>lo = 3\<close> and \<open>hi = -1\<close> (clamped to 3),
  \<open>bisect_way\<close> returns the cursor 0, while \<open>get_fofs\<close> at 3 gives 3.
\<close>

theorem bisect_way_degenerate_returns_cursor:
  "bisect_way \<lparr>yf_mmap = [0x61, 0x62, 0x0A], yf_size = 3, yf_ofs = 0\<rparr> 3 (-1) [0x61, 0x62] CM_LT
     = Inr (0, \<lparr>yf_mmap = [0x61, 0x62, 0x0A], yf_size = 3, yf_ofs = 0\<rparr>)
   \<and> get_fofs \<lparr>yf_mmap = [0x61, 0x62, 0x0A], yf_size = 3, yf_ofs = 0\<rparr> 3
     = Inr (3, \<lparr>yf_mmap = [0x61, 0x62, 0x0A], yf_size = 3, yf_ofs = 2\<rparr>)"
  by code_simp

text \<open>
  C6. The specification says the result of \<open>bisect_way\<close> depends on its arguments only. On the
  file \<open>a\<close>, line feed, \<open>b\<close>, line feed, an earlier \<open>get_fofs\<close> at 1 leaves the cursor at
  0 and an earlier \<open>get_fofs\<close> at 4 leaves it at 3; the same call of \<open>bisect_way\<close>
  (\<open>lo = hi = 2\<close>, key \<open>a\<close>, mode LT) then returns 0 after the first and 3 after the
  second.
\<close>

theorem bisect_way_depends_on_cursor:
  "(case get_fofs \<lparr>yf_mmap = [0x61, 0x0A, 0x62, 0x0A], yf_size = 4, yf_ofs = 0\<rparr> 1 of
      Inl e \<Rightarrow> False
    | Inr (r1, yf1) \<Rightarrow>
        (case get_fofs \<lparr>yf_mmap = [0x61, 0x0A, 0x62, 0x0A], yf_size = 4, yf_ofs = 0\<rparr> 4 of
           Inl e \<Rightarrow> False
         | Inr (r2, yf2) \<Rightarrow>
             yf_mmap yf1 = yf_mmap yf2 \<and> yf_size yf1 = yf_size yf2 \<and>
             map_sum id fst (bisect_way yf1 2 2 [0x61] CM_LT) = Inr 0 \<and>
             map_sum id fst (bisect_way yf2 2 2 [0x61] CM_LT) = Inr 3))"
  by code_simp

section \<open>Properties of main\<close>

lemma run_ignores_incomplete:
  "run ev (cfg\<lparr>cfg_flags := (cfg_flags cfg)\<lparr>incomplete := v\<rparr>\<rparr>) = run ev cfg"
  by (simp add: run_def Let_def cong: sum.case_cong if_cong)

text \<open>
  C9. The specification says that with the flag \<open>i\<close> the result never includes an incomplete
  last line. On the one-byte file \<open>b\<close> (no line feed), a prefix search with key x
  \<open>a\<close> and empty key y prints \<open>b\<close> and exits with 0, with \<open>-pi\<close> exactly as with
  \<open>-p\<close>: the flag is parsed into \<open>incomplete\<close> and never read again.
\<close>

theorem main_ignores_incomplete_flag:
  "main \<lparr>fs = (\<lambda>p. Mapped [0x62]), sys_write = (\<lambda>buf. int (length buf)), errmsg = [], uninit_ofs = 0\<rparr>
      ''pts_lbsearch'' [''-pi'', ''f'', ''a'', []] = Exited 0 [0x62] [] \<and>
   main \<lparr>fs = (\<lambda>p. Mapped [0x62]), sys_write = (\<lambda>buf. int (length buf)), errmsg = [], uninit_ofs = 0\<rparr>
      ''pts_lbsearch'' [''-p'', ''f'', ''a'', []] = Exited 0 [0x62] []"
  by code_simp

lemma exit_status_die5 [simp]: "exit_status (die5_code a b c d e n) = Some n"
  by (simp add: die5_code_def)





text \<open>
  A failed \<open>mmap\<close> is not among the errors that \<open>yfopen\<close> reports: the search goes on,
  and on a file that is not empty its first probe reads through the pointer
  \<open>MAP_FAILED\<close>.
\<close>

lemma yfopen_map_failed:
  "fs ev p = MapFailed n \<Longrightarrow>
   yfopen ev p = Inr \<lparr>yf_mmap = [], yf_size = int n, yf_ofs = uninit_ofs ev\<rparr>"
  by (simp add: yfopen_def)

lemma main_map_failed_example:
  "main \<lparr>fs = (\<lambda>p. MapFailed 2), sys_write = (\<lambda>buf. int (length buf)), errmsg = [], uninit_ofs = 0\<rparr>
      ''pts_lbsearch'' [''-t'', ''f'', ''a'', ''b''] = Fault OutOfBounds"
  by code_simp























section \<open>The bisection on a region of terminated lines\<close>

subsection \<open>get\_fofs resolves an offset to the next line start\<close>

lemma get_fofs_loop_scan:
  assumes "j < length (yf_mmap yf)" and "yf_mmap yf ! j = 0x0A"
    and "i \<le> j" and "\<forall>k. i \<le> k \<and> k < j \<longrightarrow> yf_mmap yf ! k \<noteq> 0x0A"
  shows "get_fofs_loop yf (int i) = Inr (int j + 1)"
  using assms(3,4)
proof (induction "j - i" arbitrary: i)
  case 0
  then have "i = j" by simp
  with assms(1,2) show ?case
    by (subst get_fofs_loop.simps) simp
next
  case (Suc d)
  then have lt: "i < j" and ne: "yf_mmap yf ! i \<noteq> 0x0A"
    by auto
  have "get_fofs_loop yf (int (Suc i)) = Inr (int j + 1)"
    using Suc by (intro Suc.hyps(1)) auto
  then have "get_fofs_loop yf (int i + 1) = Inr (int j + 1)"
    by (simp add: add.commute)
  then show ?case
    using lt ne assms(1)
    by (subst get_fofs_loop.simps) simp
qed

lemma line_end_props:
  assumes "i < length m" and "last m = 0x0A"
  shows "line_end m i \<le> length m" and "i < line_end m i"
    and "m ! (line_end m i - 1) = 0x0A"
    and "\<forall>k. i \<le> k \<and> k < line_end m i - 1 \<longrightarrow> m ! k \<noteq> 0x0A"
proof -
  let ?P = "\<lambda>b::byte. b \<noteq> 0x0A"
  let ?d = "drop i m"
  let ?k = "length (takeWhile ?P ?d)"
  have ne: "m \<noteq> []" using assms(1) by auto
  have dne: "?d \<noteq> []"
    using assms(1) by simp
  have "last ?d = last m"
    using assms(1) by simp
  then have "\<not> ?P (last ?d)"
    using assms(2) by simp
  moreover have "last ?d \<in> set ?d"
    using dne by (rule last_in_set)
  ultimately have "last ?d \<in> set ?d" and "\<not> ?P (last ?d)"
    by blast+
  then have "takeWhile ?P ?d \<noteq> ?d"
    by (metis set_takeWhileD)
  then have k: "?k < length ?d"
    by (metis length_takeWhile_le le_neq_implies_less takeWhile_eq_take take_all_iff order_refl)
  then have "\<not> ?P (?d ! ?k)"
    by (rule nth_length_takeWhile)
  then have at: "m ! (i + ?k) = 0x0A"
    using k by simp
  show "line_end m i \<le> length m"
    using k by (simp add: line_end_def)
  show "i < line_end m i"
    by (simp add: line_end_def)
  show "m ! (line_end m i - 1) = 0x0A"
    using at by (simp add: line_end_def)
  show "\<forall>k. i \<le> k \<and> k < line_end m i - 1 \<longrightarrow> m ! k \<noteq> 0x0A"
  proof (intro allI impI)
    fix j assume j: "i \<le> j \<and> j < line_end m i - 1"
    then have lt: "j - i < ?k"
      unfolding line_end_def by linarith
    then have "takeWhile ?P ?d ! (j - i) \<in> set (takeWhile ?P ?d)"
      by simp
    then have "?P (takeWhile ?P ?d ! (j - i))"
      by (metis set_takeWhileD)
    moreover have "takeWhile ?P ?d ! (j - i) = ?d ! (j - i)"
      using lt by (rule takeWhile_nth)
    moreover have "?d ! (j - i) = m ! j"
      using j k lt by simp
    ultimately show "m ! j \<noteq> 0x0A"
      by simp
  qed
qed

lemma get_fofs_loop_line_end:
  assumes "i < length (yf_mmap yf)" and "last (yf_mmap yf) = 0x0A"
  shows "get_fofs_loop yf (int i) = Inr (int (line_end (yf_mmap yf) i))"
proof -
  note p = line_end_props [OF assms]
  let ?j = "line_end (yf_mmap yf) i - 1"
  have "get_fofs_loop yf (int i) = Inr (int ?j + 1)"
    using p by (intro get_fofs_loop_scan) auto
  moreover have "int ?j + 1 = int (line_end (yf_mmap yf) i)"
    using p(2) by simp
  ultimately show ?thesis by simp
qed

lemma get_fofs_resolve:
  assumes "yf_ok yf" and "last (yf_mmap yf) = 0x0A" and "p \<le> length (yf_mmap yf)"
  shows "get_fofs yf (int p) =
           Inr (int (resolve (yf_mmap yf) p), if p = 0 then yf else yf\<lparr>yf_ofs := int p - 1\<rparr>)"
proof (cases "p = 0")
  case True
  then show ?thesis by (simp add: get_fofs_def resolve_def)
next
  case False
  then have "p - 1 < length (yf_mmap yf)" using assms(3) by simp
  from get_fofs_loop_line_end [OF this assms(2)] False assms(1,3)
  show ?thesis
    by (simp add: get_fofs_def resolve_def yf_ok_def of_nat_diff)
qed

subsection \<open>compare\_line reads one byte\<close>

lemma compare_line_loop_cmp_byte:
  assumes "peek yf (yf_ofs yf) = Inr ch"
  shows "compare_line_loop yf x c = Inr (cmp_byte ch x c)"
proof (induction x)
  case Nil
  show ?case using assms
    by (subst compare_line_loop.simps) (simp add: Let_def)
next
  case (Cons b x)
  show ?case using assms Cons.IH
    by (subst compare_line_loop.simps) (simp add: Let_def)
qed

lemma compare_line_cmp_at:
  assumes "yf_ok yf" and "p \<le> length (yf_mmap yf)"
  shows "compare_line yf (int p) x c = Inr (cmp_at (yf_mmap yf) p x c, yf\<lparr>yf_ofs := int p\<rparr>)"
proof (cases "p = length (yf_mmap yf)")
  case True
  then show ?thesis
    using assms by (simp add: compare_line_def cmp_at_def yf_ok_def)
next
  case False
  then have lt: "p < length (yf_mmap yf)" using assms(2) by simp
  then have "peek (yf\<lparr>yf_ofs := int p\<rparr>) (yf_ofs (yf\<lparr>yf_ofs := int p\<rparr>)) = Inr (yf_mmap yf ! p)"
    by (simp add: peek_def)
  from compare_line_loop_cmp_byte [OF this, of x c] False assms(1)
  show ?thesis
    by (simp add: compare_line_def cmp_at_def yf_ok_def Let_def)
qed


lemma get_fofs_cursor:
  assumes "yf_ok yf" and "last (yf_mmap yf) = 0x0A" and "p \<le> length (yf_mmap yf)"
  shows "get_fofs yf (int p) =
           Inr (int (resolve (yf_mmap yf) p),
                yf\<lparr>yf_ofs := (if p = 0 then yf_ofs yf else int p - 1)\<rparr>)"
  using get_fofs_resolve [OF assms] by simp

text \<open>At a byte that is negative as a signed \<open>char\<close> the comparator takes the end-of-line branch.\<close>

lemma compare_line_high_byte_branch:
  assumes "yf_ok yf" and "p < length (yf_mmap yf)" and "sint (yf_mmap yf ! p) < 0"
  shows "compare_line yf (int p) x md = Inr (md = CM_LE \<and> x = [], yf\<lparr>yf_ofs := int p\<rparr>)"
proof -
  have "cmp_byte (yf_mmap yf ! p) x md = (md = CM_LE \<and> x = [])"
    using assms(3) by (cases x) auto
  then show ?thesis
    using compare_line_cmp_at [OF assms(1), of p x md] assms(2) by (simp add: cmp_at_def)
qed

subsection \<open>The resolved offset is the least line start at or after the offset\<close>

lemma resolve_props:
  assumes "last m = 0x0A" and "p \<le> length m"
  shows "p \<le> resolve m p" and "resolve m p \<le> length m" and "line_start m (resolve m p)"
    and "\<And>s. line_start m s \<Longrightarrow> p \<le> s \<Longrightarrow> resolve m p \<le> s"
proof -
  show "p \<le> resolve m p"
    by (simp add: resolve_def line_end_def)
  show "resolve m p \<le> length m"
  proof (cases "p = 0")
    case True
    then show ?thesis by (simp add: resolve_def)
  next
    case False
    then have "p - 1 < length m" using assms(2) by simp
    from line_end_props(1) [OF this assms(1)] False show ?thesis
      by (simp add: resolve_def)
  qed
  show "line_start m (resolve m p)"
  proof (cases "p = 0")
    case True
    then show ?thesis by (simp add: resolve_def line_start_def)
  next
    case False
    then have "p - 1 < length m" using assms(2) by simp
    from line_end_props(1,3) [OF this assms(1)] False show ?thesis
      by (simp add: resolve_def line_start_def)
  qed
  show "resolve m p \<le> s" if s: "line_start m s" and ps: "p \<le> s" for s
  proof (cases "p = 0")
    case True
    then show ?thesis by (simp add: resolve_def)
  next
    case False
    then have i: "p - 1 < length m" using assms(2) by simp
    from False ps s have at: "m ! (s - 1) = 0x0A"
      by (auto simp: line_start_def)
    show ?thesis
    proof (rule ccontr)
      assume "\<not> resolve m p \<le> s"
      then have "p - 1 \<le> s - 1 \<and> s - 1 < line_end m (p - 1) - 1"
        using False ps by (simp add: resolve_def) linarith
      with line_end_props(4) [OF i assms(1)] have "m ! (s - 1) \<noteq> 0x0A"
        by blast
      with at show False by simp
    qed
  qed
qed

lemma resolve_fix:
  assumes "last m = 0x0A" and "p \<le> length m" and "line_start m p"
  shows "resolve m p = p"
  using resolve_props(1) [OF assms(1,2)] resolve_props(4) [OF assms(1,2) assms(3)]
  by simp

lemma resolve_mono:
  assumes "last m = 0x0A" and "q \<le> length m" and "p \<le> q"
  shows "resolve m p \<le> resolve m q"
proof -
  have "p \<le> length m" using assms by simp
  moreover have "p \<le> resolve m q"
    using resolve_props(1) [OF assms(1,2)] assms(3) by simp
  ultimately show ?thesis
    using resolve_props(3) [OF assms(1,2)] resolve_props(4) [OF assms(1)] by blast
qed


subsection \<open>The loop of bisect\_way stops at a boundary of the probe\<close>

lemma bisect_loop_step:
  assumes "(lo + hi) div 2 = mid" and "get_fofs yf mid = Inr (midf, yf1)"
    and "compare_line yf1 midf x md = Inr (r, yf2)"
  shows "bisect_loop yf lo hi x md =
      (if r then (if lo < mid then bisect_loop yf2 lo mid x md
                  else bisect_finish yf2 mid midf lo)
       else (if mid + 1 < hi then bisect_loop yf2 (mid + 1) hi x md
             else bisect_finish yf2 mid midf (mid + 1)))"
  by (subst bisect_loop.simps) (simp add: assms Let_def)

lemma bisect_loop_boundary:
  assumes "yf_ok yf" and "yf_mmap yf = m" and "last m = 0x0A" and "lo < hi" and "hi \<le> length m"
  shows "\<exists>k c. bisect_loop yf (int lo) (int hi) x md = Inr (int (resolve m k), yf\<lparr>yf_ofs := c\<rparr>) \<and>
           lo \<le> k \<and> k \<le> hi \<and> (k = lo \<or> \<not> probe m x md (k - 1)) \<and> (k = hi \<or> probe m x md k) \<and>
           c \<le> int (resolve m k)"
  using assms
proof (induction "hi - lo" arbitrary: lo hi yf rule: less_induct)
  case less
  let ?mid = "(lo + hi) div 2"
  let ?midf = "resolve m ?mid"
  let ?yf1 = "yf\<lparr>yf_ofs := (if ?mid = 0 then yf_ofs yf else int ?mid - 1)\<rparr>"
  let ?yf2 = "yf\<lparr>yf_ofs := int ?midf\<rparr>"
  have mid: "lo \<le> ?mid" "?mid < hi"
    using less.prems(4) by auto
  then have midn: "?mid \<le> length m"
    using less.prems(5) by simp
  have imid: "(int lo + int hi) div 2 = int ?mid"
    by (simp add: zdiv_int)
  have g: "get_fofs yf (int ?mid) = Inr (int ?midf, ?yf1)"
    using get_fofs_cursor [of yf ?mid] less.prems(1,2,3) midn by simp
  have midf: "?midf \<le> length m" "?mid \<le> ?midf"
    using resolve_props(1,2) [OF less.prems(3) midn] by simp_all
  have ok1: "yf_ok ?yf1" "yf_mmap ?yf1 = m"
    using less.prems(1,2) by (simp_all add: yf_ok_def)
  have ok2: "yf_ok ?yf2" "yf_mmap ?yf2 = m"
    using less.prems(1,2) by (simp_all add: yf_ok_def)
  have c: "compare_line ?yf1 (int ?midf) x md = Inr (probe m x md ?mid, ?yf2)"
    using compare_line_cmp_at [of ?yf1 ?midf x md] ok1 midf(1)
    by (simp add: probe_def)
  note step = bisect_loop_step [OF imid g c]
  have suc: "int (?mid + 1) = int ?mid + 1"
    by simp
  show ?case
  proof (cases "probe m x md ?mid")
    case True
    show ?thesis
    proof (cases "lo < ?mid")
      case lt: True
      have "?mid - lo < hi - lo"
        using mid lt by linarith
      from less.hyps [OF this ok2 less.prems(3) lt midn]
      obtain k c where r: "bisect_loop ?yf2 (int lo) (int ?mid) x md =
            Inr (int (resolve m k), ?yf2\<lparr>yf_ofs := c\<rparr>)"
        and k: "lo \<le> k" "k \<le> ?mid" "k = lo \<or> \<not> probe m x md (k - 1)"
          "k = ?mid \<or> probe m x md k" "c \<le> int (resolve m k)"
        by blast
      have "bisect_loop yf (int lo) (int hi) x md = Inr (int (resolve m k), yf\<lparr>yf_ofs := c\<rparr>)"
        using step True lt r by simp
      moreover have "k \<le> hi" using k(2) mid(2) by simp
      moreover have "k = hi \<or> probe m x md k" using k(4) True by auto
      ultimately show ?thesis using k(1,3,5) by blast
    next
      case False
      then have eq: "?mid = lo" using mid(1) by simp
      have "bisect_loop yf (int lo) (int hi) x md = Inr (int (resolve m lo), yf\<lparr>yf_ofs := int (resolve m lo)\<rparr>)"
        using step True False eq by (simp add: bisect_finish_def)
      moreover have "probe m x md lo" using True eq by simp
      ultimately show ?thesis using less.prems(4) by (intro exI [of _ lo] exI [of _ "int (resolve m lo)"]) simp
    qed
  next
    case False
    show ?thesis
    proof (cases "?mid + 1 < hi")
      case lt: True
      have "hi - (?mid + 1) < hi - lo"
        using mid lt by linarith
      from less.hyps [OF this ok2 less.prems(3) lt less.prems(5)]
      obtain k c where r: "bisect_loop ?yf2 (int (?mid + 1)) (int hi) x md =
            Inr (int (resolve m k), ?yf2\<lparr>yf_ofs := c\<rparr>)"
        and k: "?mid + 1 \<le> k" "k \<le> hi" "k = ?mid + 1 \<or> \<not> probe m x md (k - 1)"
          "k = hi \<or> probe m x md k" "c \<le> int (resolve m k)"
        by blast
      have "int ?mid + 1 < int hi"
        using lt by linarith
      then have "bisect_loop yf (int lo) (int hi) x md = Inr (int (resolve m k), yf\<lparr>yf_ofs := c\<rparr>)"
        using False r unfolding step suc by simp
      moreover have "lo \<le> k" using k(1) mid(1) by simp
      moreover have "\<not> probe m x md (k - 1)" using k(3) False by auto
      ultimately show ?thesis using k(2,4,5) by blast
    next
      case nlt: False
      then have eq: "?mid + 1 = hi" using mid(2) by simp
      have hin: "hi \<le> length (yf_mmap ?yf2)" using less.prems(5) ok2(2) by simp
      have "get_fofs ?yf2 (int hi) = Inr (int (resolve m hi), yf\<lparr>yf_ofs := int hi - 1\<rparr>)"
        using get_fofs_cursor [of ?yf2 hi] ok2 less.prems(3,4) hin by simp
      moreover have "int ?mid + 1 = int hi"
        using eq by linarith
      ultimately have "bisect_loop yf (int lo) (int hi) x md = Inr (int (resolve m hi), yf\<lparr>yf_ofs := int hi - 1\<rparr>)"
        using False unfolding step by (simp add: bisect_finish_def)
      moreover have "hi - 1 = ?mid" using eq by linarith
      then have "\<not> probe m x md (hi - 1)" using False by (simp only: not_False_eq_True)
      moreover have "int hi - 1 \<le> int (resolve m hi)"
        using resolve_props(1) [OF less.prems(3,5)] by simp
      ultimately show ?thesis using less.prems(4)
        by (intro exI [of _ hi] exI [of _ "int hi - 1"]) simp
    qed
  qed
qed


subsection \<open>The comparator is monotone over the lines of a sorted region\<close>

lemma sint_nonneg_uint:
  assumes "0 \<le> sint (b :: byte)"
  shows "sint b = uint b"
proof -
  have "sint b < 2 ^ 8"
    using sint_lt [of b] by simp
  then have "take_bit 8 (sint b) = sint b"
    using assms by (simp add: take_bit_int_eq_self)
  then show ?thesis
    by (simp add: uint_sint)
qed

lemma sint_lf: "(sint (b :: byte) = 0x0A) = (b = 0x0A)"
proof
  assume "sint b = 0x0A"
  then have "sint b = sint (0x0A :: byte)" by simp
  then show "b = 0x0A" by (rule signed_word_eqI)
qed simp

lemma cmp_byte_eol:
  assumes "sint c1 < 0 \<or> sint c1 = 0x0A" and "cmp_byte c1 x md"
  shows "cmp_byte c2 x md"
proof (cases x)
  case Nil
  with assms show ?thesis by (auto split: if_splits)
next
  case (Cons b x')
  with assms show ?thesis by simp
qed

lemma cmp_byte_mono:
  assumes "\<not> (sint c1 < 0 \<or> sint c1 = 0x0A)" and "\<not> (sint c2 < 0 \<or> sint c2 = 0x0A)"
    and "sint c1 \<le> sint c2" and "cmp_byte c1 x md"
  shows "cmp_byte c2 x md"
proof (cases x)
  case Nil
  with assms show ?thesis by simp
next
  case (Cons b x')
  show ?thesis
  proof (cases "sint c1 = sint c2")
    case True
    then have "c1 = c2" by (rule signed_word_eqI)
    with assms(4) show ?thesis by simp
  next
    case False
    then have lt: "sint c1 < sint c2" using assms(3) by simp
    have "uint b \<le> sint c1"
      using assms(1,4) Cons by (auto split: if_splits)
    with lt have "uint b < sint c2" by simp
    then show ?thesis
      using assms(2) Cons by simp
  qed
qed

lemma sorted_wrt_pair:
  assumes "sorted_wrt (<) xs" and "sorted_wrt R xs" and "a \<in> set xs" and "b \<in> set xs"
    and "(a :: nat) < b"
  shows "R a b"
  using assms
proof (induction xs)
  case Nil
  then show ?case by simp
next
  case (Cons x xs)
  show ?case
  proof (cases "a = x")
    case True
    with Cons.prems show ?thesis by auto
  next
    case False
    with Cons.prems have a: "a \<in> set xs" by simp
    with Cons.prems have "x < a" by auto
    with Cons.prems have "b \<noteq> x" by auto
    with Cons.prems have b: "b \<in> set xs" by simp
    from Cons.IH [OF _ _ a b] Cons.prems show ?thesis by simp
  qed
qed

lemma line_at_first:
  assumes "p < length m"
  shows "line_at m p = (if m ! p = 0x0A then [] else m ! p # line_at m (Suc p))"
proof -
  have "drop p m = m ! p # drop (Suc p) m"
    using assms by (simp add: Cons_nth_drop_Suc)
  then show ?thesis
    by (simp add: line_at_def)
qed

lemma region_sorted_lines:
  assumes "region_sorted m" and "line_start m p" and "line_start m q" and "p < q" and "q < length m"
  shows "line_at m p \<le> line_at m q"
proof -
  have "sorted_wrt (<) (line_starts m)"
    unfolding line_starts_def by (intro sorted_wrt_filter sorted_wrt_upt)
  moreover have "sorted_wrt (\<lambda>p q. line_at m p \<le> line_at m q) (line_starts m)"
    using assms(1) by (simp add: region_sorted_def sorted_map)
  moreover have "p \<in> set (line_starts m)" "q \<in> set (line_starts m)"
    using assms(2-5) by (simp_all add: line_starts_def)
  ultimately show ?thesis
    using assms(4) by (rule sorted_wrt_pair)
qed

lemma cmp_at_mono:
  assumes "region_sorted m" and "seven_bit m"
    and "line_start m p" and "line_start m q" and "p \<le> q" and "q \<le> length m"
    and "cmp_at m p x md"
  shows "cmp_at m q x md"
proof (cases "q = length m \<or> p = q")
  case True
  with assms(7) show ?thesis by (auto simp: cmp_at_def)
next
  case False
  then have pq: "p < q" and qn: "q < length m" and pn: "p < length m"
    using assms(5,6) by auto
  have le: "line_at m p \<le> line_at m q"
    using region_sorted_lines [OF assms(1,3,4) pq qn] .
  have nn: "0 \<le> sint (m ! p)" "0 \<le> sint (m ! q)"
    using assms(2) pn qn by (simp_all add: seven_bit_def list_all_length)
  have cp: "cmp_byte (m ! p) x md"
    using assms(7) pn by (simp add: cmp_at_def)
  have "cmp_byte (m ! q) x md"
  proof (cases "m ! p = 0x0A")
    case True
    then have "sint (m ! p) < 0 \<or> sint (m ! p) = 0x0A" by simp
    from cmp_byte_eol [OF this cp] show ?thesis .
  next
    case np: False
    then have "line_at m p = m ! p # line_at m (Suc p)"
      using line_at_first [OF pn] by simp
    with le have ql: "line_at m q \<noteq> []" and "m ! p \<le> hd (line_at m q)"
      by (cases "line_at m q"; auto)+
    then have nq: "m ! q \<noteq> 0x0A" and wle: "m ! p \<le> m ! q"
      using line_at_first [OF qn] by (auto split: if_splits)
    have "sint (m ! p) \<le> sint (m ! q)"
      using wle nn by (simp add: sint_nonneg_uint word_le_def)
    moreover have "sint (m ! p) \<noteq> 0x0A" "sint (m ! q) \<noteq> 0x0A"
      using np nq by (simp_all add: sint_lf)
    ultimately show ?thesis
      using nn cp by (intro cmp_byte_mono [of "m ! p" "m ! q"]) auto
  qed
  then show ?thesis
    using qn by (simp add: cmp_at_def)
qed

lemma probe_mono:
  assumes "region_sorted m" and "seven_bit m" and "last m = 0x0A"
    and "j \<le> k" and "k \<le> length m" and "probe m x md j"
  shows "probe m x md k"
proof -
  have jn: "j \<le> length m" using assms(4,5) by simp
  show ?thesis
    unfolding probe_def
    using assms(6) resolve_props(2,3) [OF assms(3) jn] resolve_props(2,3) [OF assms(3,5)]
      resolve_mono [OF assms(3,5,4)]
    by (intro cmp_at_mono [OF assms(1,2), of "resolve m j" "resolve m k"])
       (simp_all add: probe_def)
qed


subsection \<open>On a sorted region the loop finds the first line that compares true\<close>

lemma bisect_loop_first_line:
  assumes ok: "yf_ok yf" and m: "yf_mmap yf = m" and lf: "last m = 0x0A"
    and srt: "region_sorted m" and sb: "seven_bit m" and lo: "lo < length m"
  shows "\<exists>r c. bisect_loop yf (int lo) (int (length m)) x md = Inr (int r, yf\<lparr>yf_ofs := c\<rparr>) \<and>
           lo \<le> r \<and> r \<le> length m \<and> line_start m r \<and> c \<le> int r \<and>
           (\<forall>p. line_start m p \<longrightarrow> lo \<le> p \<longrightarrow> p \<le> length m \<longrightarrow> cmp_at m p x md = (r \<le> p))"
proof -
  let ?n = "length m"
  from bisect_loop_boundary [OF ok m lf lo order_refl, of x md]
  obtain k c where r: "bisect_loop yf (int lo) (int ?n) x md = Inr (int (resolve m k), yf\<lparr>yf_ofs := c\<rparr>)"
    and k: "lo \<le> k" "k \<le> ?n" "k = lo \<or> \<not> probe m x md (k - 1)" "k = ?n \<or> probe m x md k"
      "c \<le> int (resolve m k)"
    by blast
  let ?r = "resolve m k"
  note rp = resolve_props [OF lf k(2)]
  have "cmp_at m p x md = (?r \<le> p)" if p: "line_start m p" "lo \<le> p" "p \<le> ?n" for p
  proof
    assume cp: "cmp_at m p x md"
    show "?r \<le> p"
    proof (rule ccontr)
      assume "\<not> ?r \<le> p"
      then have lt: "p < ?r" by simp
      have "p < k"
      proof (rule ccontr)
        assume "\<not> p < k"
        then have "resolve m k \<le> resolve m p"
          using resolve_mono [OF lf p(3), of k] by simp
        then show False
          using lt resolve_fix [OF lf p(3) p(1)] by simp
      qed
      then have "k \<noteq> lo" and le: "p \<le> k - 1"
        using p(2) by auto
      then have np: "\<not> probe m x md (k - 1)"
        using k(3) by simp
      have "probe m x md p"
        using cp resolve_fix [OF lf p(3) p(1)] by (simp add: probe_def)
      from probe_mono [OF srt sb lf le _ this] k(2) np show False
        by simp
    qed
  next
    assume rp': "?r \<le> p"
    show "cmp_at m p x md"
    proof (cases "k = ?n")
      case True
      then have "p = ?n"
        using rp' rp(1) p(3) by simp
      then show ?thesis by (simp add: cmp_at_def)
    next
      case False
      then have "cmp_at m ?r x md"
        using k(4) by (simp add: probe_def)
      from cmp_at_mono [OF srt sb rp(3) p(1) rp' p(3) this] show ?thesis .
    qed
  qed
  then show ?thesis
    using r k(1,5) rp(1,2,3) by (intro exI [of _ ?r] exI [of _ c]) auto
qed

subsection \<open>bisect\_way after the clamping of hi\<close>

lemma clamp_size:
  "(if uint64 (yf_size yf) > uint64 (yf_size yf) then yf_size yf else yf_size yf) = yf_size yf"
  by simp

lemma clamp_unbounded:
  assumes "0 \<le> yf_size yf" and "yf_size yf < 2 ^ 63"
  shows "(if uint64 (- 1) > uint64 (yf_size yf) then yf_size yf else - 1) = yf_size yf"
proof -
  have "uint64 (yf_size yf) = yf_size yf"
    using assms by (simp add: uint64_def)
  moreover have "uint64 (- 1) = 2 ^ 64 - 1"
    by (simp add: uint64_def)
  ultimately show ?thesis
    using assms by simp
qed

lemma bisect_way_clamped:
  assumes "(if uint64 hi > uint64 (yf_size yf) then yf_size yf else hi) = yf_size yf"
  shows "bisect_way yf lo hi x md =
           (if x = [] \<and> md = CM_LE then Inr (yf_ofs yf, yf)
            else if x = [] \<and> md = CM_LP then Inr (yf_size yf, yf)
            else if lo \<ge> yf_size yf then Inr (yf_ofs yf, yf)
            else bisect_loop yf lo (yf_size yf) x md)"
proof -
  have "bisect_way yf lo hi x md =
      (if x = [] \<and> md = CM_LP \<and> (if x = [] \<and> md = CM_LE then lo else yf_size yf) = yf_size yf
         then Inr (if x = [] \<and> md = CM_LE then lo else yf_size yf, yf)
       else if lo \<ge> (if x = [] \<and> md = CM_LE then lo else yf_size yf) then Inr (yf_ofs yf, yf)
       else bisect_loop yf lo (if x = [] \<and> md = CM_LE then lo else yf_size yf) x md)"
    unfolding bisect_way_def yfgetsize_def Let_def assms by (rule refl)
  then show ?thesis
    by simp
qed


lemma bisect_way_first_line:
  assumes ok: "yf_ok yf" and m: "yf_mmap yf = m" and lf: "last m = 0x0A"
    and srt: "region_sorted m" and sb: "seven_bit m" and lo: "lo < length m"
    and clamp: "(if uint64 hi > uint64 (yf_size yf) then yf_size yf else hi) = yf_size yf"
    and plain: "x \<noteq> [] \<or> (md \<noteq> CM_LE \<and> md \<noteq> CM_LP)"
  shows "\<exists>r c. bisect_way yf (int lo) hi x md = Inr (int r, yf\<lparr>yf_ofs := c\<rparr>) \<and>
           lo \<le> r \<and> r \<le> length m \<and> line_start m r \<and> c \<le> int r \<and>
           (\<forall>p. line_start m p \<longrightarrow> lo \<le> p \<longrightarrow> p \<le> length m \<longrightarrow> cmp_at m p x md = (r \<le> p))"
proof -
  have sz: "yf_size yf = int (length m)"
    using ok m by (simp add: yf_ok_def)
  have "bisect_way yf (int lo) hi x md = bisect_loop yf (int lo) (int (length m)) x md"
    using plain lo unfolding bisect_way_clamped [OF clamp] sz by auto
  then show ?thesis
    using bisect_loop_first_line [OF ok m lf srt sb lo, of x md] by simp
qed

lemma general_search_detect:
  "bisect_interval yf 0 (- 1) md x y = Inr ((s, e), yf') \<Longrightarrow>
   general_search ev yf md PR_DETECT x y = Exited (if s \<ge> e then 3 else 0) [] []"
  by (simp add: general_search_def interval_exit_def)

lemma detect_shortcut_le: "detect_shortcut yf x CM_LE = Exited 3 [] []"
  by (simp add: detect_shortcut_def)

lemma bisect_interval_le_same:
  "bisect_way yf lo hi x CM_LE = Inr (s, yf1) \<Longrightarrow>
   bisect_interval yf lo hi CM_LE x x = Inr ((s, s), yf1)"
  by (simp add: bisect_interval_def)

lemma bisect_interval_other:
  assumes "bisect_way yf lo hi x CM_LE = Inr (s, yf1)" and "\<not> (md = CM_LE \<and> x = y)"
  shows "bisect_interval yf lo hi md x y =
           (case bisect_way yf1 s hi y md of Inl e \<Rightarrow> Inl e | Inr (e, yf2) \<Rightarrow> Inr ((s, e), yf2))"
  using assms by (auto simp: bisect_interval_def)

lemma detect_shortcut_other:
  assumes "md \<noteq> CM_LE" and "bisect_way yf 0 (- 1) x CM_LE = Inr (s, yf1)"
  shows "detect_shortcut yf x md =
          (case get_fofs yf1 s of
             Inl e \<Rightarrow> Fault e
           | Inr (fofs, yf2) \<Rightarrow>
               (case compare_line yf2 fofs x md of
                  Inl e \<Rightarrow> Fault e
                | Inr (r, yf3) \<Rightarrow> if r then Exited 3 [] [] else Exited 0 [] []))"
  using assms by (simp add: detect_shortcut_def)


subsection \<open>The quiet shortcut of main against the general path\<close>

lemma shortcut_nonempty_region:
  assumes ok: "yf_ok yf" and m: "yf_mmap yf = m" and ne: "m \<noteq> []" and lf: "last m = 0x0A"
    and srt: "region_sorted m" and sb: "seven_bit m" and x: "x \<noteq> []"
    and small: "int (length m) < 2 ^ 63"
  shows "\<exists>s e yf'. bisect_interval yf 0 (- 1) md x x = Inr ((s, e), yf') \<and>
           detect_shortcut yf x md = Exited (if s \<ge> e then 3 else 0) [] []"
proof -
  let ?n = "length m"
  have sz: "yf_size yf = int ?n"
    using ok m by (simp add: yf_ok_def)
  have clamp: "(if uint64 (- 1) > uint64 (yf_size yf) then yf_size yf else - 1) = yf_size yf"
    using small sz by (intro clamp_unbounded) simp_all
  have pos: "0 < ?n" using ne by simp
  from bisect_way_first_line [OF ok m lf srt sb pos clamp, of x CM_LE] x
  obtain r1 c1 where bw1: "bisect_way yf 0 (- 1) x CM_LE = Inr (int r1, yf\<lparr>yf_ofs := c1\<rparr>)"
    and r1: "r1 \<le> ?n" "line_start m r1" "c1 \<le> int r1"
    by auto
  let ?yf1 = "yf\<lparr>yf_ofs := c1\<rparr>"
  have ok1: "yf_ok ?yf1" and m1: "yf_mmap ?yf1 = m" and sz1: "yf_size ?yf1 = int ?n"
    using ok m sz by (simp_all add: yf_ok_def)
  have clamp1: "(if uint64 (- 1) > uint64 (yf_size ?yf1) then yf_size ?yf1 else - 1) = yf_size ?yf1"
    using small sz1 by (intro clamp_unbounded) simp_all
  show ?thesis
  proof (cases "md = CM_LE")
    case True
    have "bisect_interval yf 0 (- 1) md x x = Inr ((int r1, int r1), ?yf1)"
      unfolding True using bw1 by (rule bisect_interval_le_same)
    moreover have "detect_shortcut yf x md = Exited (if int r1 \<ge> int r1 then 3 else 0) [] []"
      using True by (simp add: detect_shortcut_le)
    ultimately show ?thesis by blast
  next
    case False
    let ?yfa = "?yf1\<lparr>yf_ofs := (if r1 = 0 then yf_ofs ?yf1 else int r1 - 1)\<rparr>"
    have g: "get_fofs ?yf1 (int r1) = Inr (int r1, ?yfa)"
      using get_fofs_cursor [of ?yf1 r1] ok1 m1 lf r1(1) resolve_fix [OF lf r1(1,2)]
      by simp
    have oka: "yf_ok ?yfa" "r1 \<le> length (yf_mmap ?yfa)" and ma: "yf_mmap ?yfa = m"
      using ok m sz r1(1) by (simp_all add: yf_ok_def)
    have cl: "compare_line ?yfa (int r1) x md = Inr (cmp_at m r1 x md, ?yfa\<lparr>yf_ofs := int r1\<rparr>)"
      using compare_line_cmp_at [OF oka, of x md] ma by simp
    have det: "detect_shortcut yf x md = (if cmp_at m r1 x md then Exited 3 [] [] else Exited 0 [] [])"
      unfolding detect_shortcut_other [OF False bw1] g using cl by simp
    have bi: "bisect_interval yf 0 (- 1) md x x =
        (case bisect_way ?yf1 (int r1) (- 1) x md of Inl e \<Rightarrow> Inl e
         | Inr (e, yf2) \<Rightarrow> Inr ((int r1, e), yf2))"
      using bisect_interval_other [OF bw1, of md x] False by simp
    show ?thesis
    proof (cases "r1 < ?n")
      case True
      from bisect_way_first_line [OF ok1 m1 lf srt sb True clamp1, of x md] x
      obtain r2 c2 where bw2: "bisect_way ?yf1 (int r1) (- 1) x md = Inr (int r2, ?yf1\<lparr>yf_ofs := c2\<rparr>)"
        and r2: "r1 \<le> r2"
        and ch: "\<forall>p. line_start m p \<longrightarrow> r1 \<le> p \<longrightarrow> p \<le> ?n \<longrightarrow> cmp_at m p x md = (r2 \<le> p)"
        by auto
      have "cmp_at m r1 x md = (r2 \<le> r1)"
        using ch r1(1,2) by simp
      then have "detect_shortcut yf x md = Exited (if int r1 \<ge> int r2 then 3 else 0) [] []"
        using det by simp
      moreover have "bisect_interval yf 0 (- 1) md x x = Inr ((int r1, int r2), ?yf1\<lparr>yf_ofs := c2\<rparr>)"
        using bi bw2 by simp
      ultimately show ?thesis by blast
    next
      case nlt: False
      then have eq: "r1 = ?n" using r1(1) by simp
      have "bisect_way ?yf1 (int r1) (- 1) x md = Inr (c1, ?yf1)"
        unfolding bisect_way_clamped [OF clamp1] using x eq sz1 by simp
      then have "bisect_interval yf 0 (- 1) md x x = Inr ((int r1, c1), ?yf1)"
        using bi by simp
      moreover have "cmp_at m r1 x md"
        using eq by (simp add: cmp_at_def)
      then have "detect_shortcut yf x md = Exited (if int r1 \<ge> c1 then 3 else 0) [] []"
        using det r1(3) by simp
      ultimately show ?thesis by blast
    qed
  qed
qed

lemma get_fofs_negative:
  assumes "ofs < 0" and "0 \<le> yf_size yf"
  shows "get_fofs yf ofs = Inl OutOfBounds"
proof -
  have "get_fofs_loop yf (ofs - 1) = Inl OutOfBounds"
    using assms(1) by (subst get_fofs_loop.simps) simp
  then show ?thesis
    using assms by (simp add: get_fofs_def)
qed

lemma shortcut_empty_region:
  assumes ok: "yf_ok yf" and m: "yf_mmap yf = []" and x: "x \<noteq> []"
  shows "detect_shortcut yf x md = general_search ev yf md PR_DETECT x x"
proof -
  have sz: "yf_size yf = 0"
    using ok m by (simp add: yf_ok_def)
  have clamp: "(if uint64 (- 1) > uint64 (yf_size yf) then yf_size yf else - 1) = yf_size yf"
    using sz by (intro clamp_unbounded) simp_all
  let ?c = "yf_ofs yf"
  have bw1: "bisect_way yf 0 (- 1) x CM_LE = Inr (?c, yf)"
    unfolding bisect_way_clamped [OF clamp] using x sz by simp
  show ?thesis
  proof (cases "md = CM_LE")
    case True
    have "bisect_interval yf 0 (- 1) md x x = Inr ((?c, ?c), yf)"
      unfolding True using bw1 by (rule bisect_interval_le_same)
    from general_search_detect [OF this, of ev] True show ?thesis
      by (simp add: detect_shortcut_le)
  next
    case False
    have bi: "bisect_interval yf 0 (- 1) md x x =
        (case bisect_way yf ?c (- 1) x md of Inl e \<Rightarrow> Inl e
         | Inr (e, yf2) \<Rightarrow> Inr ((?c, e), yf2))"
      using bisect_interval_other [OF bw1, of md x] False by simp
    show ?thesis
    proof (cases "?c < 0")
      case True
      have "get_fofs yf ?c = Inl OutOfBounds"
        using True sz by (intro get_fofs_negative) simp_all
      then have d: "detect_shortcut yf x md = Fault OutOfBounds"
        unfolding detect_shortcut_other [OF False bw1] by simp
      have "(?c + 0) div 2 < 0"
        using True by simp
      then have "get_fofs yf ((?c + 0) div 2) = Inl OutOfBounds"
        using sz by (intro get_fofs_negative) simp_all
      then have "bisect_loop yf ?c 0 x md = Inl OutOfBounds"
        by (subst bisect_loop.simps) (simp add: Let_def)
      then have "bisect_way yf ?c (- 1) x md = Inl OutOfBounds"
        unfolding bisect_way_clamped [OF clamp] using x sz True by simp
      then have "bisect_interval yf 0 (- 1) md x x = Inl OutOfBounds"
        using bi by simp
      then show ?thesis
        using d by (simp add: general_search_def)
    next
      case nneg: False
      have g: "get_fofs yf ?c = Inr (0, yf)"
        using nneg sz by (simp add: get_fofs_def)
      have "compare_line yf 0 x md = Inr (True, yf\<lparr>yf_ofs := 0\<rparr>)"
        using sz by (simp add: compare_line_def)
      then have d: "detect_shortcut yf x md = Exited 3 [] []"
        unfolding detect_shortcut_other [OF False bw1] g by simp
      have "bisect_way yf ?c (- 1) x md = Inr (?c, yf)"
        unfolding bisect_way_clamped [OF clamp] using x sz nneg by simp
      then have "bisect_interval yf 0 (- 1) md x x = Inr ((?c, ?c), yf)"
        using bi by simp
      from general_search_detect [OF this, of ev] d show ?thesis
        by simp
    qed
  qed
qed


subsection \<open>bisect\_interval\<close>

lemma line_starts_iff: "p \<in> set (line_starts m) \<longleftrightarrow> line_start m p \<and> p < length m"
  by (auto simp: line_starts_def)

lemma line_start_length:
  assumes "m \<noteq> []" and "last m = 0x0A"
  shows "line_start m (length m)"
  using assms by (simp add: line_start_def last_conv_nth)

lemma cmp_at_empty_le: "cmp_at m p [] CM_LE"
  by (simp add: cmp_at_def)

lemma cmp_at_empty_lp: "p < length m \<Longrightarrow> \<not> cmp_at m p [] CM_LP"
  by (simp add: cmp_at_def)

lemma bisect_interval_end:
  assumes ok: "yf_ok yf" and m: "yf_mmap yf = m" and ne: "m \<noteq> []" and lf: "last m = 0x0A"
    and srt: "region_sorted m" and sb: "seven_bit m" and x: "x \<noteq> []"
  shows "\<exists>s e yf'. bisect_interval yf 0 (int (length m)) md x y = Inr ((int s, e), yf') \<and>
           s \<le> length m \<and> line_start m s \<and> e \<le> int (length m) \<and>
           (int s < e \<longrightarrow> line_start m (nat e)) \<and>
           (\<forall>p \<in> set (line_starts m).
              (s \<le> p \<and> int p < e) = (cmp_at m p x CM_LE \<and> \<not> cmp_at m p y md))"
proof -
  let ?n = "length m"
  let ?sel = "\<lambda>p. cmp_at m p x CM_LE \<and> \<not> cmp_at m p y md"
  have sz: "yf_size yf = int ?n"
    using ok m by (simp add: yf_ok_def)
  have clamp: "(if uint64 (int ?n) > uint64 (yf_size yf) then yf_size yf else int ?n) = yf_size yf"
    using sz by simp
  have pos: "0 < ?n" using ne by simp
  from bisect_way_first_line [OF ok m lf srt sb pos clamp, of x CM_LE] x
  obtain r1 c1 where bw1: "bisect_way yf 0 (int ?n) x CM_LE = Inr (int r1, yf\<lparr>yf_ofs := c1\<rparr>)"
    and r1: "r1 \<le> ?n" "line_start m r1" "c1 \<le> int r1"
    and ch1: "\<forall>p. line_start m p \<longrightarrow> 0 \<le> p \<longrightarrow> p \<le> ?n \<longrightarrow> cmp_at m p x CM_LE = (r1 \<le> p)"
    by auto
  let ?yf1 = "yf\<lparr>yf_ofs := c1\<rparr>"
  have ok1: "yf_ok ?yf1" and m1: "yf_mmap ?yf1 = m" and sz1: "yf_size ?yf1 = int ?n"
    using ok m sz by (simp_all add: yf_ok_def)
  have clamp1: "(if uint64 (int ?n) > uint64 (yf_size ?yf1) then yf_size ?yf1 else int ?n) = yf_size ?yf1"
    using sz1 by simp
  have k1: "cmp_at m p x CM_LE = (r1 \<le> p)" if "p \<in> set (line_starts m)" for p
    using that ch1 by (simp add: line_starts_iff)
  have "\<exists>e yf'. bisect_interval yf 0 (int ?n) md x y = Inr ((int r1, e), yf') \<and> e \<le> int ?n \<and>
          (int r1 < e \<longrightarrow> line_start m (nat e)) \<and>
          (\<forall>p \<in> set (line_starts m). (r1 \<le> p \<and> int p < e) = ?sel p)"
  proof (cases "md = CM_LE \<and> x = y")
    case True
    then have "bisect_interval yf 0 (int ?n) md x y = Inr ((int r1, int r1), ?yf1)"
      using bisect_interval_le_same [OF bw1] by simp
    moreover have "\<forall>p \<in> set (line_starts m). (r1 \<le> p \<and> int p < int r1) = ?sel p"
      using True by auto
    ultimately show ?thesis
      using r1(1) by (intro exI [of _ "int r1"] exI [of _ ?yf1]) simp
  next
    case False
    have bi: "bisect_interval yf 0 (int ?n) md x y =
        (case bisect_way ?yf1 (int r1) (int ?n) y md of Inl e \<Rightarrow> Inl e
         | Inr (e, yf2) \<Rightarrow> Inr ((int r1, e), yf2))"
      using bisect_interval_other [OF bw1 False] .
    consider (le) "y = []" "md = CM_LE" | (lp) "y = []" "md = CM_LP"
      | (stop) "y \<noteq> [] \<or> (md \<noteq> CM_LE \<and> md \<noteq> CM_LP)" "r1 = ?n"
      | (search) "y \<noteq> [] \<or> (md \<noteq> CM_LE \<and> md \<noteq> CM_LP)" "r1 < ?n"
      using r1(1) by fastforce
    then show ?thesis
    proof cases
      case le
      have "bisect_way ?yf1 (int r1) (int ?n) y md = Inr (c1, ?yf1)"
        unfolding bisect_way_clamped [OF clamp1] using le by simp
      then have "bisect_interval yf 0 (int ?n) md x y = Inr ((int r1, c1), ?yf1)"
        using bi by simp
      moreover have "\<forall>p \<in> set (line_starts m). (r1 \<le> p \<and> int p < c1) = ?sel p"
        using le r1(3) by (auto simp: cmp_at_empty_le)
      ultimately show ?thesis
        using r1(1,3) by (intro exI [of _ c1] exI [of _ ?yf1]) simp
    next
      case lp
      have "bisect_way ?yf1 (int r1) (int ?n) y md = Inr (int ?n, ?yf1)"
        unfolding bisect_way_clamped [OF clamp1] using lp sz1 by simp
      then have "bisect_interval yf 0 (int ?n) md x y = Inr ((int r1, int ?n), ?yf1)"
        using bi by simp
      moreover have "\<forall>p \<in> set (line_starts m). (r1 \<le> p \<and> int p < int ?n) = ?sel p"
        using lp k1 by (auto simp: cmp_at_empty_lp line_starts_iff)
      ultimately show ?thesis
        using line_start_length [OF ne lf]
        by (intro exI [of _ "int ?n"] exI [of _ ?yf1]) simp
    next
      case stop
      have "bisect_way ?yf1 (int r1) (int ?n) y md = Inr (c1, ?yf1)"
        unfolding bisect_way_clamped [OF clamp1] using stop sz1 by auto
      then have "bisect_interval yf 0 (int ?n) md x y = Inr ((int r1, c1), ?yf1)"
        using bi by simp
      moreover have "\<forall>p \<in> set (line_starts m). (r1 \<le> p \<and> int p < c1) = ?sel p"
        using stop(2) k1 by (auto simp: line_starts_iff)
      ultimately show ?thesis
        using r1(1,3) by (intro exI [of _ c1] exI [of _ ?yf1]) simp
    next
      case search
      from bisect_way_first_line [OF ok1 m1 lf srt sb search(2) clamp1 search(1)]
      obtain r2 c2 where bw2: "bisect_way ?yf1 (int r1) (int ?n) y md = Inr (int r2, ?yf1\<lparr>yf_ofs := c2\<rparr>)"
        and r2: "r1 \<le> r2" "r2 \<le> ?n" "line_start m r2"
        and ch2: "\<forall>p. line_start m p \<longrightarrow> r1 \<le> p \<longrightarrow> p \<le> ?n \<longrightarrow> cmp_at m p y md = (r2 \<le> p)"
        by blast
      have "bisect_interval yf 0 (int ?n) md x y = Inr ((int r1, int r2), ?yf1\<lparr>yf_ofs := c2\<rparr>)"
        using bi bw2 by simp
      moreover have "(r1 \<le> p \<and> int p < int r2) = ?sel p" if "p \<in> set (line_starts m)" for p
      proof (cases "r1 \<le> p")
        case True
        then have "cmp_at m p y md = (r2 \<le> p)"
          using ch2 that by (simp add: line_starts_iff)
        then show ?thesis
          using True k1 [OF that] by auto
      next
        case False
        then show ?thesis
          using k1 [OF that] by simp
      qed
      ultimately show ?thesis
        using r2(2,3) by (intro exI [of _ "int r2"] exI [of _ "?yf1\<lparr>yf_ofs := c2\<rparr>"]) simp
    qed
  qed
  then show ?thesis
    using r1(1,2) by blast
qed

section \<open>The interval search and the quiet shortcut\<close>

text \<open>
  Without a line feed at or after the offset the loop of \<open>get_fofs\<close> runs off the end
  of the region.
\<close>

lemma get_fofs_loop_no_lf:
  assumes "\<forall>k. i \<le> k \<and> k < length (yf_mmap yf) \<longrightarrow> yf_mmap yf ! k \<noteq> 0x0A"
  shows "get_fofs_loop yf (int i) = Inl OutOfBounds"
  using assms
proof (induction "length (yf_mmap yf) - i" arbitrary: i)
  case 0
  then show ?case
    by (subst get_fofs_loop.simps) simp
next
  case (Suc d)
  then have "get_fofs_loop yf (int (Suc i)) = Inl OutOfBounds"
    by (intro Suc.hyps(1)) auto
  then have "get_fofs_loop yf (int i + 1) = Inl OutOfBounds"
    by (simp add: add.commute)
  moreover have "yf_mmap yf ! i \<noteq> 0x0A"
    using Suc.hyps(2) Suc.prems by simp
  ultimately show ?case
    by (subst get_fofs_loop.simps) simp
qed

text \<open>The shortcut of \<open>bisect_interval\<close>: equal keys under mode LE give an empty interval.\<close>

lemma bisect_interval_le_empty:
  "bisect_interval yf lo hi CM_LE x x = Inr ((s, e), yf') \<Longrightarrow> e = s"
  by (auto simp: bisect_interval_def split: sum.splits)

text \<open>
  In an incomplete last line every offset after the first byte faults, where the
  specification has \<open>get_fofs\<close> return the size.
\<close>

lemma get_fofs_unterminated:
  assumes "yf_ok yf" and "0 < p" and "p \<le> length (yf_mmap yf)"
    and "\<forall>k. p - 1 \<le> k \<and> k < length (yf_mmap yf) \<longrightarrow> yf_mmap yf ! k \<noteq> 0x0A"
  shows "get_fofs yf (int p) = Inl OutOfBounds"
proof -
  have "get_fofs_loop yf (int (p - 1)) = Inl OutOfBounds"
    using assms(4) by (rule get_fofs_loop_no_lf)
  moreover have "int (p - 1) = int p - 1"
    using assms(2) by simp
  ultimately show ?thesis
    using assms(1,2,3) by (simp add: get_fofs_def yf_ok_def)
qed

text \<open>
  With \<open>lo\<close> at or after the end (or an empty key under mode LE) \<open>bisect_way\<close> returns
  the cursor left by the last call; an empty key under mode LP over the whole file gives
  the size.
\<close>

lemma bisect_way_degenerate:
  assumes "(if uint64 hi > uint64 (yf_size yf) then yf_size yf else hi) = yf_size yf"
    and "x \<noteq> []" and "lo \<ge> yf_size yf"
  shows "bisect_way yf lo hi x md = Inr (yf_ofs yf, yf)"
  unfolding bisect_way_clamped [OF assms(1)] using assms(2,3) by simp

lemma bisect_way_empty_key_le: "bisect_way yf lo hi [] CM_LE = Inr (yf_ofs yf, yf)"
  by (simp add: bisect_way_def Let_def)

lemma bisect_way_empty_key_lp:
  assumes "(if uint64 hi > uint64 (yf_size yf) then yf_size yf else hi) = yf_size yf"
  shows "bisect_way yf lo hi [] CM_LP = Inr (yf_size yf, yf)"
  unfolding bisect_way_clamped [OF assms] by simp

text \<open>
  The shortcut of \<open>bisect_interval\<close> for mode LE with equal keys: on the file with the
  single line \<open>a\<close> and \<open>x = y = a\<close> the interval is empty.
\<close>

lemma bisect_interval_equal_keys_example:
  "bisect_interval \<lparr>yf_mmap = [0x61, 0x0A], yf_size = 2, yf_ofs = 0\<rparr> 0 2 CM_LE [0x61] [0x61] =
     Inr ((0, 0), \<lparr>yf_mmap = [0x61, 0x0A], yf_size = 2, yf_ofs = 0\<rparr>)"
  by code_simp

text \<open>
  C1. The specification says that \<open>bisect_interval\<close> returns the byte span of the lines \<open>L\<close>
  with \<open>x \<le> L\<close> and \<open>L < y\<close> (mode LT) or \<open>L \<le> y\<close> (mode LE). The file of the two
  lines \<open>ab\<close> and \<open>ac\<close> is sorted, its lines start at 0 and 3, and with \<open>x = ab\<close> and
  \<open>y = ad\<close> both lines match under either mode, so the span is the whole file, from 0
  to 6. \<open>bisect_interval\<close> returns the empty interval from 6 to 6 under both modes:
  the loop of \<open>compare_line\<close> never advances \<open>yf->ofs\<close>, so the second key byte \<open>b\<close> is
  compared with the first byte \<open>a\<close> of each line, and no line counts as at or after
  \<open>ab\<close>.
\<close>

theorem bisect_interval_skips_matching_lines:
  "region_sorted [0x61, 0x62, 0x0A, 0x61, 0x63, 0x0A] \<and>
   line_starts [0x61, 0x62, 0x0A, 0x61, 0x63, 0x0A] = [0, 3] \<and>
   filter (\<lambda>p. claimed_match CM_LT [0x61, 0x62] [0x61, 0x64]
                 (line_at [0x61, 0x62, 0x0A, 0x61, 0x63, 0x0A] p))
     (line_starts [0x61, 0x62, 0x0A, 0x61, 0x63, 0x0A]) = [0, 3] \<and>
   filter (\<lambda>p. claimed_match CM_LE [0x61, 0x62] [0x61, 0x64]
                 (line_at [0x61, 0x62, 0x0A, 0x61, 0x63, 0x0A] p))
     (line_starts [0x61, 0x62, 0x0A, 0x61, 0x63, 0x0A]) = [0, 3] \<and>
   bisect_interval
     \<lparr>yf_mmap = [0x61, 0x62, 0x0A, 0x61, 0x63, 0x0A], yf_size = 6, yf_ofs = 0\<rparr>
     0 6 CM_LT [0x61, 0x62] [0x61, 0x64] =
     Inr ((6, 6), \<lparr>yf_mmap = [0x61, 0x62, 0x0A, 0x61, 0x63, 0x0A], yf_size = 6, yf_ofs = 6\<rparr>) \<and>
   bisect_interval
     \<lparr>yf_mmap = [0x61, 0x62, 0x0A, 0x61, 0x63, 0x0A], yf_size = 6, yf_ofs = 0\<rparr>
     0 6 CM_LE [0x61, 0x62] [0x61, 0x64] =
     Inr ((6, 6), \<lparr>yf_mmap = [0x61, 0x62, 0x0A, 0x61, 0x63, 0x0A], yf_size = 6, yf_ofs = 6\<rparr>)"
  by code_simp

text \<open>
  For the refinement of the quiet shortcut the hypothesis on the bytes is needed: on a sorted file with a last line that starts
  with the byte \<open>0xC8\<close>, the shortcut finds no match for the key \<open>b\<close> under mode LT and
  the general path returns the non-empty interval from 4 to 11.
\<close>

lemma detect_shortcut_high_byte_example:
  "region_sorted [0x61, 0x0A, 0x61, 0x0A, 0x62, 0x0A, 0x62, 0x62, 0x0A, 0xC8, 0x0A] \<and>
   detect_shortcut
     \<lparr>yf_mmap = [0x61, 0x0A, 0x61, 0x0A, 0x62, 0x0A, 0x62, 0x62, 0x0A, 0xC8, 0x0A],
        yf_size = 11, yf_ofs = 0\<rparr> [0x62] CM_LT = Exited 3 [] [] \<and>
   map_sum id fst
     (bisect_interval
        \<lparr>yf_mmap = [0x61, 0x0A, 0x61, 0x0A, 0x62, 0x0A, 0x62, 0x62, 0x0A, 0xC8, 0x0A],
           yf_size = 11, yf_ofs = 0\<rparr> 0 (- 1) CM_LT [0x62] [0x62]) = Inr (4, 11)"
  by code_simp

text \<open>
  The other two hypotheses are needed as well. On the file \<open>a\<close> without a line feed the
  shortcut for mode LE exits with 3 and the general path reads outside the region; with
  an empty key the first \<open>bisect_way\<close> returns the stale cursor, here 1, and the shortcut
  exits with 3 where the general path returns the interval from 1 to 2.
\<close>

lemma detect_shortcut_incomplete_line_example:
  "detect_shortcut \<lparr>yf_mmap = [0x61], yf_size = 1, yf_ofs = 0\<rparr> [0x62] CM_LE = Exited 3 [] [] \<and>
   bisect_interval \<lparr>yf_mmap = [0x61], yf_size = 1, yf_ofs = 0\<rparr> 0 (- 1) CM_LE [0x62] [0x62] =
     Inl OutOfBounds"
  by code_simp

lemma detect_shortcut_empty_key_example:
  "detect_shortcut \<lparr>yf_mmap = [0x61, 0x0A], yf_size = 2, yf_ofs = 1\<rparr> [] CM_LT = Exited 3 [] [] \<and>
   map_sum id fst
     (bisect_interval \<lparr>yf_mmap = [0x61, 0x0A], yf_size = 2, yf_ofs = 1\<rparr> 0 (- 1) CM_LT [] []) =
     Inr (1, 2)"
  by code_simp

text \<open>
  C10 as stated fails: it is stated for every region. On the unsorted file of the lines
  \<open>b\<close> and \<open>a\<close>, with key \<open>a\<close> and mode LP, the shortcut exits with 3 and
  \<open>bisect_interval\<close> returns the non-empty interval from 0 to 4 (exit status 0).
\<close>

theorem detect_shortcut_unsorted_counterexample:
  "detect_shortcut \<lparr>yf_mmap = [0x62, 0x0A, 0x61, 0x0A], yf_size = 4, yf_ofs = 0\<rparr> [0x61] CM_LP =
     Exited 3 [] [] \<and>
   bisect_interval \<lparr>yf_mmap = [0x62, 0x0A, 0x61, 0x0A], yf_size = 4, yf_ofs = 0\<rparr> 0 (- 1) CM_LP [0x61] [0x61] =
     Inr ((0, 4), \<lparr>yf_mmap = [0x62, 0x0A, 0x61, 0x0A], yf_size = 4, yf_ofs = 4\<rparr>)"
  by code_simp

text \<open>
  C10, amended. For every region whose lines are sorted, all terminated by a line feed
  and free of bytes that are negative as a signed \<open>char\<close>, and for every non-empty key
  \<open>x\<close> and every mode, the quiet shortcut ends as the general path through
  \<open>bisect_interval\<close> with \<open>y = x\<close> does in quiet mode; on a non-empty region both
  return, and the shortcut exits with 3 if \<open>start \<ge> end\<close> in the interval of the
  general path and with 0 otherwise.
\<close>

theorem detect_shortcut_refines_general:
  assumes "yf_ok yf" and "yf_mmap yf = [] \<or> last (yf_mmap yf) = 0x0A"
    and "region_sorted (yf_mmap yf)" and "seven_bit (yf_mmap yf)" and "x \<noteq> []"
    and "yf_size yf < 2 ^ 63"
  shows "detect_shortcut yf x md = general_search ev yf md PR_DETECT x x \<and>
         (yf_mmap yf \<noteq> [] \<longrightarrow>
            (\<exists>s e yf'. bisect_interval yf 0 (- 1) md x x = Inr ((s, e), yf') \<and>
               detect_shortcut yf x md = Exited (if s \<ge> e then 3 else 0) [] []))"
proof (cases "yf_mmap yf = []")
  case True
  then show ?thesis
    using shortcut_empty_region [OF assms(1) True assms(5)] by simp
next
  case False
  then have lf: "last (yf_mmap yf) = 0x0A"
    using assms(2) by simp
  have small: "int (length (yf_mmap yf)) < 2 ^ 63"
    using assms(1,6) by (simp add: yf_ok_def)
  from shortcut_nonempty_region [OF assms(1) refl False lf assms(3,4,5) small, of md]
  obtain s e yf' where bi: "bisect_interval yf 0 (- 1) md x x = Inr ((s, e), yf')"
    and d: "detect_shortcut yf x md = Exited (if s \<ge> e then 3 else 0) [] []"
    by blast
  from general_search_detect [OF bi, of ev] d
  have "detect_shortcut yf x md = general_search ev yf md PR_DETECT x x"
    by simp
  with bi d show ?thesis by blast
qed


theorem detect_shortcut_refines_general_witness:
  "yf_ok \<lparr>yf_mmap = [0x61, 0x0A, 0x62, 0x0A], yf_size = 4, yf_ofs = 0\<rparr> \<and>
   region_sorted [0x61, 0x0A, 0x62, 0x0A] \<and>
   seven_bit [0x61, 0x0A, 0x62, 0x0A] \<and>
   detect_shortcut \<lparr>yf_mmap = [0x61, 0x0A, 0x62, 0x0A], yf_size = 4, yf_ofs = 0\<rparr> [0x61, 0x62] CM_LT =
     general_search \<lparr>fs = (\<lambda>p. Mapped []), sys_write = (\<lambda>buf. int (length buf)), errmsg = [], uninit_ofs = 0\<rparr>
       \<lparr>yf_mmap = [0x61, 0x0A, 0x62, 0x0A], yf_size = 4, yf_ofs = 0\<rparr> CM_LT PR_DETECT [0x61, 0x62] [0x61, 0x62] \<and>
   detect_shortcut \<lparr>yf_mmap = [0x61, 0x0A, 0x62, 0x0A], yf_size = 4, yf_ofs = 0\<rparr> [0x61, 0x62] CM_LT =
     Exited 3 [] []"
proof -
  let ?yf = "\<lparr>yf_mmap = [0x61, 0x0A, 0x62, 0x0A], yf_size = 4, yf_ofs = 0\<rparr>"
  have h1: "yf_ok ?yf" by code_simp
  have h2: "yf_mmap ?yf = [] \<or> last (yf_mmap ?yf) = 0x0A" by simp
  have h3: "region_sorted (yf_mmap ?yf)" by code_simp
  have h4: "seven_bit (yf_mmap ?yf)" by code_simp
  have h5: "[0x61, 0x62 :: byte] \<noteq> []" by simp
  have h6: "yf_size ?yf < 2 ^ 63" by simp
  have d: "detect_shortcut ?yf [0x61, 0x62] CM_LT = Exited 3 [] []" by code_simp
  from detect_shortcut_refines_general [OF h1 h2 h3 h4 h5 h6, of CM_LT] h1 h3 h4 d
  show ?thesis by simp
qed

end
